theory Spec2Isabelle
  imports Main "HOL-Library.Multiset" "HOL-Library.List_Lexorder"
begin

section \<open>The anvil calculator of \<^verbatim>\<open>TFC_anvil_calculator.py\<close>\<close>

text \<open>
  A combination is a Python tuple of integers, here an \<open>int list\<close>; a candidate set is a
  Python set of tuples, here an \<open>int list set\<close>. Python integers are unbounded, so
  they are \<open>int\<close>, and \<open>//\<close> is the floor division \<open>div\<close> of \<open>int\<close>.
  A raised exception is the \<open>Inl\<close> of a sum type.
\<close>

datatype error = ValueError | ZeroDivisionError

subsection \<open>Built-ins that can raise\<close>

text \<open>\<open>max\<close> and \<open>min\<close> of an empty list raise \<open>ValueError\<close>.\<close>

fun py_max :: "int list \<Rightarrow> error + int" where
  "py_max [] = Inl ValueError"
| "py_max (x # xs) = Inr (fold max xs x)"

fun py_min :: "int list \<Rightarrow> error + int" where
  "py_min [] = Inl ValueError"
| "py_min (x # xs) = Inr (fold min xs x)"

text \<open>\<open>a // b\<close> raises \<open>ZeroDivisionError\<close> when \<open>b\<close> is zero.\<close>

definition floordiv :: "int \<Rightarrow> int \<Rightarrow> error + int" where
  "floordiv a b = (if b = 0 then Inl ZeroDivisionError else Inr (a div b))"

subsection \<open>The estimator\<close>

text \<open>
  Lines 29 to 39. Each branch fixes \<open>base_modifier\<close> and \<open>temp\<close>; the division
  follows the branches.
\<close>

definition detect_multiplier :: "int \<Rightarrow> int list \<Rightarrow> error + (int \<times> int)" where
  "detect_multiplier target ms =
     (case (if target > 0
            then (case py_max ms of
                    Inl e \<Rightarrow> Inl e
                  | Inr base_modifier \<Rightarrow>
                      Inr (base_modifier, target - sum_list (filter (\<lambda>x. x > 0) ms)))
            else (case py_min ms of
                    Inl e \<Rightarrow> Inl e
                  | Inr base_modifier \<Rightarrow>
                      Inr (base_modifier, target + sum_list (filter (\<lambda>x. x < 0) ms)))) of
        Inl e \<Rightarrow> Inl e
      | Inr (base_modifier, temp) \<Rightarrow>
          (case floordiv temp base_modifier of
             Inl e \<Rightarrow> Inl e
           | Inr base_modifier_multiplier \<Rightarrow> Inr (base_modifier_multiplier, base_modifier)))"

subsection \<open>The seed generator\<close>

text \<open>
  Lines 53 to 58. \<open>[base_modifier] * n\<close> with \<open>n > 1\<close> is the list of \<open>n\<close> copies.
\<close>

definition generate_multiplier_first_moves :: "int \<Rightarrow> int \<Rightarrow> int list \<Rightarrow> int list set" where
  "generate_multiplier_first_moves base_modifier_multiplier base_modifier ms =
     (if base_modifier_multiplier \<le> 1
      then (\<lambda>i. [i]) ` set ms
      else {replicate (nat base_modifier_multiplier) base_modifier})"

definition multiplier_calibration :: "int \<Rightarrow> int list \<Rightarrow> error + int list set" where
  "multiplier_calibration target ms =
     (case detect_multiplier target ms of
        Inl e \<Rightarrow> Inl e
      | Inr (base_modifier_multiplier, base_modifier) \<Rightarrow>
          Inr (generate_multiplier_first_moves base_modifier_multiplier base_modifier ms))"

subsection \<open>The expander\<close>

text \<open>
  Line 86: \<open>{tuple(sorted([*x, y])) for x in a for y in modifiers}\<close>.
\<close>

definition expand_modifiers :: "int list set \<Rightarrow> int list \<Rightarrow> int list set" where
  "expand_modifiers a ms = (\<Union>x\<in>a. (\<lambda>y. sort (x @ [y])) ` set ms)"

subsection \<open>The driver\<close>

text \<open>The list bound to \<open>modifiers\<close> at line 99.\<close>

definition modifiers :: "int list" where
  "modifiers = [-5, -6, -9, -15, 2, 7, 13, 16]"

text \<open>Lines 100 to 102: the first required value outside the list raises.\<close>

fun check_must_include :: "int list \<Rightarrow> error + unit" where
  "check_must_include [] = Inr ()"
| "check_must_include (include # rest) =
     (if include \<notin> set modifiers then Inl ValueError else check_must_include rest)"

text \<open>
  Lines 108 to 117. Python leaves the order in which \<open>for i in combinations\<close> visits a
  set to the implementation, so the order is a parameter \<open>order\<close> of the model: it lists
  the elements of a set. The loop has no bound; a run that never returns is \<open>None\<close>.
  The counter \<open>count\<close> and the three \<open>print\<close> calls do not reach the returned value and
  are left out.
\<close>

partial_function (option) main_loop ::
  "(int list set \<Rightarrow> int list list) \<Rightarrow> int \<Rightarrow> int list set \<Rightarrow> int list option" where
  "main_loop order target combinations =
     (case find (\<lambda>i. sum_list i = target) (order combinations) of
        Some i \<Rightarrow> Some i
      | None \<Rightarrow> main_loop order target (expand_modifiers combinations modifiers))"

definition main ::
  "(int list set \<Rightarrow> int list list) \<Rightarrow> int \<Rightarrow> int list \<Rightarrow> (error + int list) option" where
  "main order target must_include =
     (case check_must_include must_include of
        Inl e \<Rightarrow> Some (Inl e)
      | Inr _ \<Rightarrow>
          (let target' = target - sum_list must_include in
           case multiplier_calibration target' modifiers of
             Inl e \<Rightarrow> Some (Inl e)
           | Inr combinations \<Rightarrow>
               (case main_loop order target' combinations of
                  None \<Rightarrow> None
                | Some i \<Rightarrow> Some (Inr (must_include @ i)))))"

text \<open>
  An admissible iteration order lists exactly the elements of every finite set, each
  once.
\<close>

definition iteration_order :: "(int list set \<Rightarrow> int list list) \<Rightarrow> bool" where
  "iteration_order order \<longleftrightarrow> (\<forall>s. finite s \<longrightarrow> set (order s) = s \<and> distinct (order s))"

text \<open>One admissible order: the elements in lexicographic order.\<close>

definition lex_order :: "int list set \<Rightarrow> int list list" where
  "lex_order s = sorted_list_of_set s"

text \<open>
  The candidate sets that the loop started on \<open>seed\<close> scans: the seed, and the expansion
  of a scanned set that holds no match.
\<close>

inductive scans :: "int \<Rightarrow> int list set \<Rightarrow> int list set \<Rightarrow> bool" for target seed where
  scans_seed: "scans target seed seed"
| scans_expand:
    "scans target seed combinations \<Longrightarrow> \<forall>i\<in>combinations. sum_list i \<noteq> target \<Longrightarrow>
     scans target seed (expand_modifiers combinations modifiers)"

section \<open>The estimator\<close>

lemma py_max_eq: "py_max M = (if M = [] then Inl ValueError else Inr (Max (set M)))"
proof (cases M)
  case Nil
  then show ?thesis by simp
next
  case (Cons a list)
  have "fold max list a = Max (set (a # list))" by (simp only: Max.set_eq_fold)
  with Cons show ?thesis by simp
qed

lemma py_min_eq: "py_min M = (if M = [] then Inl ValueError else Inr (Min (set M)))"
proof (cases M)
  case Nil
  then show ?thesis by simp
next
  case (Cons a list)
  have "fold min list a = Min (set (a # list))" by (simp only: Min.set_eq_fold)
  with Cons show ?thesis by simp
qed

lemma detect_multiplier_eq:
  "detect_multiplier T M =
     (if M = [] then Inl ValueError
      else if 0 < T then
        (if Max (set M) = 0 then Inl ZeroDivisionError
         else Inr ((T - sum_list (filter (\<lambda>x. 0 < x) M)) div Max (set M), Max (set M)))
      else
        (if Min (set M) = 0 then Inl ZeroDivisionError
         else Inr ((T + sum_list (filter (\<lambda>x. x < 0) M)) div Min (set M), Min (set M))))"
  by (simp add: detect_multiplier_def py_max_eq py_min_eq floordiv_def)

lemma Max_modifiers: "Max (set modifiers) = 16"
  by (simp add: modifiers_def)

lemma Min_modifiers: "Min (set modifiers) = -15"
  by (simp add: modifiers_def)

lemma sum_pos_modifiers: "sum_list (filter (\<lambda>x. 0 < x) modifiers) = 38"
  by (simp add: modifiers_def)

lemma sum_neg_modifiers: "sum_list (filter (\<lambda>x. x < 0) modifiers) = -35"
  by (simp add: modifiers_def)

lemma detect_multiplier_modifiers:
  "detect_multiplier T modifiers =
     (if 0 < T then Inr ((T - 38) div 16, 16) else Inr ((T - 35) div (-15), -15))"
  by (simp add: detect_multiplier_eq Max_modifiers Min_modifiers sum_pos_modifiers
      sum_neg_modifiers) (simp add: modifiers_def)

text \<open>
  C6. Whenever \<open>detect_multiplier T M\<close> returns \<open>(r, p)\<close>, \<open>p\<close> is the maximum of \<open>M\<close>
  when \<open>T > 0\<close> and the minimum of \<open>M\<close> when \<open>T \<le> 0\<close>; it does return when \<open>M\<close> is
  not empty and that extremal value is not zero. For \<open>T = 0\<close> and the list of \<open>main\<close> the
  minimum branch is taken and \<open>p = -15\<close>.
\<close>

theorem detect_multiplier_base:
  "(detect_multiplier T M = Inr (r, p) \<longrightarrow>
      M \<noteq> [] \<and> p \<noteq> 0 \<and> p = (if 0 < T then Max (set M) else Min (set M))) \<and>
   (M \<noteq> [] \<and> (if 0 < T then Max (set M) else Min (set M)) \<noteq> 0 \<longrightarrow>
      (\<exists>r'. detect_multiplier T M = Inr (r', if 0 < T then Max (set M) else Min (set M)))) \<and>
   (\<exists>r'. detect_multiplier 0 modifiers = Inr (r', -15))"
  by (auto simp: detect_multiplier_eq Min_modifiers split: if_splits) (simp add: modifiers_def)

theorem detect_multiplier_base_witness:
  "detect_multiplier 70 modifiers = Inr (2, 16) \<and> Max (set modifiers) = 16 \<and>
   detect_multiplier 0 modifiers = Inr (2, -15) \<and> Min (set modifiers) = -15"
proof -
  have a: "detect_multiplier 70 modifiers = Inr (2, 16)"
    by (simp add: detect_multiplier_modifiers)
  have b: "detect_multiplier 0 modifiers = Inr (2, -15)"
    by (simp add: detect_multiplier_modifiers)
  have "(16::int) = (if (0::int) < 70 then Max (set modifiers) else Min (set modifiers))"
    using a detect_multiplier_base [of 70 modifiers 2 16] by blast
  hence c: "Max (set modifiers) = 16"
    by (simp only: zero_less_numeral if_True)
  have "(-15::int) = (if (0::int) < 0 then Max (set modifiers) else Min (set modifiers))"
    using b detect_multiplier_base [of 0 modifiers 2 "-15"] by blast
  hence d: "Min (set modifiers) = -15"
    by (simp only: less_irrefl if_False)
  from a b c d show ?thesis by blast
qed

text \<open>
  C10. With the list of \<open>main\<close>, \<open>detect_multiplier\<close> returns for every target: the
  base modifier is 16 when \<open>T > 0\<close> and -15 when \<open>T \<le> 0\<close>, never zero, so the floor
  division does not raise.
\<close>

theorem detect_multiplier_total_in_main:
  "\<exists>r p. detect_multiplier T modifiers = Inr (r, p) \<and> p \<noteq> 0 \<and>
     p = (if 0 < T then 16 else -15) \<and>
     floordiv (if 0 < T then T - 38 else T - 35) p = Inr r"
  by (simp add: detect_multiplier_modifiers floordiv_def)

theorem detect_multiplier_total_in_main_witness:
  "detect_multiplier 82 modifiers = Inr (2, 16) \<and> detect_multiplier (-1) modifiers = Inr (2, -15)"
  using detect_multiplier_total_in_main [of 82] detect_multiplier_total_in_main [of "-1"]
  by (auto simp: floordiv_def)

text \<open>
  C5. For a list \<open>M\<close> with a positive and a negative value, \<open>detect_multiplier T M\<close>
  returns \<open>(r, p)\<close> with \<open>r\<close> the floor division by \<open>p\<close> of a residual. For \<open>T > 0\<close> the
  residual is \<open>T\<close> minus the sum of the positive modifiers. For \<open>T \<le> 0\<close> line 35 computes
  \<open>T\<close> plus the sum of the negative modifiers, not \<open>T\<close> minus that sum: at \<open>T = -1\<close> the
  function returns \<open>r = 2\<close>, where the residual \<open>-1 - (-35) = 34\<close> gives \<open>34 div -15 = -3\<close>.
\<close>

theorem detect_multiplier_residual:
  assumes "\<exists>x\<in>set M. 0 < x" and "\<exists>x\<in>set M. x < 0"
  shows "detect_multiplier T M =
     (if 0 < T
      then Inr ((T - sum_list (filter (\<lambda>x. 0 < x) M)) div Max (set M), Max (set M))
      else Inr ((T + sum_list (filter (\<lambda>x. x < 0) M)) div Min (set M), Min (set M)))"
proof -
  from assms obtain a b where a: "a \<in> set M" "0 < a" and b: "b \<in> set M" "b < 0"
    by blast
  have "a \<le> Max (set M)" using a by simp
  hence mx: "Max (set M) \<noteq> 0" using a by linarith
  have "Min (set M) \<le> b" using b by simp
  hence mn: "Min (set M) \<noteq> 0" using b by linarith
  have "M \<noteq> []" using a by auto
  with mx mn show ?thesis by (simp add: detect_multiplier_eq)
qed

theorem detect_multiplier_residual_witness:
  "detect_multiplier (-1) modifiers = Inr (2, -15) \<and>
   (-1 - sum_list (filter (\<lambda>x. x < 0) modifiers)) div Min (set modifiers) = -3"
proof -
  have p: "\<exists>x\<in>set modifiers. 0 < x" by (simp add: modifiers_def)
  have n: "\<exists>x\<in>set modifiers. x < 0" by (simp add: modifiers_def)
  show ?thesis
    using detect_multiplier_residual [OF p n, of "-1"]
    by (simp add: sum_neg_modifiers Min_modifiers)
qed

section \<open>The seed generator\<close>

text \<open>
  C7. \<open>generate_multiplier_first_moves r p M\<close> is the set of the one-element tuples of
  the modifiers of \<open>M\<close> when \<open>r \<le> 1\<close>, and otherwise the set whose only element is \<open>p\<close>
  repeated \<open>r\<close> times.
\<close>

theorem generate_multiplier_first_moves_cases:
  "(r \<le> 1 \<longrightarrow> generate_multiplier_first_moves r p M = {[m] | m. m \<in> set M}) \<and>
   (1 < r \<longrightarrow> generate_multiplier_first_moves r p M = {replicate (nat r) p} \<and>
      int (length (replicate (nat r) p)) = r)"
  by (auto simp: generate_multiplier_first_moves_def)

theorem generate_multiplier_first_moves_cases_witness:
  "generate_multiplier_first_moves 1 16 [2, 7] = {[2], [7]} \<and>
   generate_multiplier_first_moves 3 16 [2, 7] = {[16, 16, 16]}"
proof -
  have a: "generate_multiplier_first_moves 1 16 [2, 7] = {[m] | m. m \<in> set [2, 7]}"
    using generate_multiplier_first_moves_cases [of 1 16 "[2, 7]"] by simp
  have b: "generate_multiplier_first_moves 3 16 [2, 7] = {replicate (nat 3) 16}"
    using generate_multiplier_first_moves_cases [of 3 16 "[2, 7]"] by simp
  have c: "replicate (nat 3) (16::int) = [16, 16, 16]"
    by (simp add: numeral_3_eq_3)
  from a b c show ?thesis by auto
qed

section \<open>The expander\<close>

lemma expand_modifiers_iff:
  "z \<in> expand_modifiers a M \<longleftrightarrow> (\<exists>x\<in>a. \<exists>y\<in>set M. z = sort (x @ [y]))"
  by (auto simp: expand_modifiers_def)

lemma finite_expand_modifiers: "finite a \<Longrightarrow> finite (expand_modifiers a M)"
  by (simp add: expand_modifiers_def)

lemma sorted_same_mset: "sorted u \<Longrightarrow> sorted v \<Longrightarrow> mset u = mset v \<Longrightarrow> u = (v::int list)"
proof -
  assume u: "sorted u" and v: "sorted v" and m: "mset u = mset v"
  from m u have "sort v = u" by (rule properties_for_sort)
  moreover from v have "sort v = v" by (rule sorted_sort_id)
  ultimately show "u = v" by simp
qed

text \<open>
  C4. \<open>expand_modifiers a M\<close> is the set of the sorted tuples got by appending a modifier
  of \<open>M\<close> to a tuple of \<open>a\<close>; when every tuple of \<open>a\<close> has length \<open>k\<close>, every element of
  the result has length \<open>k + 1\<close>; and two elements of the result that are permutations of
  one another are equal.
\<close>

theorem expand_modifiers_spec:
  "expand_modifiers a M = {sort (x @ [y]) | x y. x \<in> a \<and> y \<in> set M} \<and>
   ((\<forall>x\<in>a. length x = k) \<longrightarrow> (\<forall>z\<in>expand_modifiers a M. length z = k + 1)) \<and>
   (\<forall>u\<in>expand_modifiers a M. \<forall>v\<in>expand_modifiers a M. mset u = mset v \<longrightarrow> u = v)"
proof (intro conjI)
  show "expand_modifiers a M = {sort (x @ [y]) | x y. x \<in> a \<and> y \<in> set M}"
    unfolding expand_modifiers_def by blast
  show "(\<forall>x\<in>a. length x = k) \<longrightarrow> (\<forall>z\<in>expand_modifiers a M. length z = k + 1)"
    by (auto simp: expand_modifiers_iff)
  show "\<forall>u\<in>expand_modifiers a M. \<forall>v\<in>expand_modifiers a M. mset u = mset v \<longrightarrow> u = v"
  proof (intro ballI impI)
    fix u v
    assume "u \<in> expand_modifiers a M" and "v \<in> expand_modifiers a M"
    hence "sorted u" and "sorted v" by (auto simp: expand_modifiers_iff)
    moreover assume "mset u = mset v"
    ultimately show "u = v" by (rule sorted_same_mset)
  qed
qed

theorem expand_modifiers_spec_witness:
  "[-5, 2] \<in> expand_modifiers {[2], [7]} [16, -5] \<and> length [-5, 2 :: int] = 1 + 1 \<and>
   [2, -5] \<notin> expand_modifiers {[2], [7]} [16, -5]"
proof -
  note spec = expand_modifiers_spec [of "{[2], [7]}" "[16, -5]" 1]
  have s: "sort ([2] @ [-5 :: int]) = [-5, 2]" by simp
  from spec have eq: "expand_modifiers {[2], [7]} [16, -5] =
      {sort (x @ [y]) | x y. x \<in> {[2], [7]} \<and> y \<in> set [16, -5]}" by (rule conjunct1)
  have "sort ([2] @ [-5]) \<in>
      {sort (x @ [y]) | x y. x \<in> {[2], [7 :: int]} \<and> y \<in> set [16, -5]}"
    by (rule CollectI, rule exI [of _ "[2]"], rule exI [of _ "-5"]) simp
  hence "sort ([2] @ [-5]) \<in> expand_modifiers {[2], [7]} [16, -5]" by (simp only: eq)
  hence m: "[-5, 2] \<in> expand_modifiers {[2], [7]} [16, -5]" by (simp only: s)
  from spec have "(\<forall>x\<in>{[2], [7 :: int]}. length x = 1) \<longrightarrow>
      (\<forall>z\<in>expand_modifiers {[2], [7]} [16, -5]. length z = 1 + 1)" by blast
  with m have l: "length [-5, 2 :: int] = 1 + 1" by simp
  from spec have u: "\<forall>u\<in>expand_modifiers {[2], [7]} [16, -5].
      \<forall>v\<in>expand_modifiers {[2], [7]} [16, -5]. mset u = mset v \<longrightarrow> u = v" by blast
  have "[2, -5] \<notin> expand_modifiers {[2], [7]} [16, -5]"
  proof
    assume "[2, -5] \<in> expand_modifiers {[2], [7]} [16, -5]"
    with u m have "mset [2, -5 :: int] = mset [-5, 2] \<longrightarrow> [2, -5] = [-5, 2 :: int]" by blast
    thus False by simp
  qed
  with m l show ?thesis by blast
qed

lemma card_expand_modifiers:
  assumes "inj_on mset a" and "M \<noteq> []"
  shows "card a \<le> card (expand_modifiers a M)"
proof (cases "finite a")
  case False
  then show ?thesis by simp
next
  case True
  from assms(2) obtain m where m: "m \<in> set M" by (cases M) auto
  let ?f = "\<lambda>x. sort (x @ [m])"
  have "inj_on ?f a"
  proof (rule inj_onI)
    fix x y
    assume x: "x \<in> a" and y: "y \<in> a" and e: "sort (x @ [m]) = sort (y @ [m])"
    from e have "mset (sort (x @ [m])) = mset (sort (y @ [m]))" by simp
    hence "mset x = mset y" by simp
    with assms(1) x y show "x = y" by (auto dest: inj_onD)
  qed
  hence "card (?f ` a) = card a" by (rule card_image)
  moreover have "?f ` a \<subseteq> expand_modifiers a M"
    unfolding expand_modifiers_def using m by blast
  moreover have "finite (expand_modifiers a M)"
    using True by (rule finite_expand_modifiers)
  ultimately show ?thesis by (metis card_mono)
qed

text \<open>
  C8, amended. For every non-empty set \<open>a\<close> of equal-length tuples no two of which are
  permutations of one another, \<open>expand_modifiers a modifiers\<close> has at least as many
  elements as \<open>a\<close>. The tuples need not be sorted. The condition is what line 86 forces:
  it sorts, so tuples of \<open>a\<close> that are permutations of one another fall together.
\<close>

theorem expand_modifiers_never_shrinks:
  assumes "a \<noteq> {}" and "\<forall>x\<in>a. length x = k"
    and "\<forall>x\<in>a. \<forall>y\<in>a. mset x = mset y \<longrightarrow> x = y"
  shows "card a \<le> card (expand_modifiers a modifiers)"
proof -
  from assms(3) have "inj_on mset a" by (auto intro: inj_onI)
  moreover have "modifiers \<noteq> []" by (simp add: modifiers_def)
  ultimately show ?thesis by (rule card_expand_modifiers)
qed

theorem expand_modifiers_never_shrinks_witness:
  "card {[7, 2], [16, 2 :: int]} = 2 \<and>
   2 \<le> card (expand_modifiers {[7, 2], [16, 2]} modifiers)"
proof -
  have ne: "{[7, 2], [16, 2 :: int]} \<noteq> {}" by simp
  have len: "\<forall>x\<in>{[7, 2], [16, 2 :: int]}. length x = 2" by simp
  have perm: "\<forall>x\<in>{[7, 2], [16, 2 :: int]}. \<forall>y\<in>{[7, 2], [16, 2]}. mset x = mset y \<longrightarrow> x = y"
    by simp
  have c: "card {[7, 2], [16, 2 :: int]} = 2" by simp
  from expand_modifiers_never_shrinks [OF ne len perm] c show ?thesis by simp
qed

text \<open>
  C8 as stated, for every set of equal-length tuples, fails: nine orderings of
  \<open>(2, 7, 13, 16)\<close> expand to the eight sorted tuples that hold these four values and one
  modifier more.
\<close>

theorem expand_modifiers_shrinks_counterexample:
  "card (expand_modifiers
      {[2, 7, 13, 16], [2, 7, 16, 13], [2, 13, 7, 16], [2, 13, 16, 7], [2, 16, 7, 13],
       [2, 16, 13, 7], [7, 2, 13, 16], [7, 2, 16, 13], [7, 13, 2, 16]} modifiers)
   < card {[2, 7, 13, 16], [2, 7, 16, 13], [2, 13, 7, 16], [2, 13, 16, 7], [2, 16, 7, 13],
       [2, 16, 13, 7], [7, 2, 13, 16], [7, 2, 16, 13], [7, 13, 2, 16 :: int]}"
  by (simp add: expand_modifiers_def modifiers_def)

section \<open>The search loop\<close>

lemma iteration_order_lex: "iteration_order lex_order"
  by (simp add: iteration_order_def lex_order_def)

lemma find_order_None:
  assumes "iteration_order order" and "finite c"
  shows "find P (order c) = None \<longleftrightarrow> (\<forall>i\<in>c. \<not> P i)"
  using assms by (auto simp: find_None_iff iteration_order_def)

lemma find_order_Some:
  assumes "iteration_order order" and "finite c" and "find P (order c) = Some i"
  shows "i \<in> c \<and> P i"
proof -
  from assms(3) have "P i" and "i \<in> set (order c)"
    by (auto simp: find_Some_iff)
  with assms(1,2) show ?thesis by (simp add: iteration_order_def)
qed

lemma main_loop_found:
  "find (\<lambda>i. sum_list i = t) (order c) = Some i \<Longrightarrow> main_loop order t c = Some i"
  by (subst main_loop.simps) simp

lemma main_loop_next:
  "find (\<lambda>i. sum_list i = t) (order c) = None \<Longrightarrow>
   main_loop order t c = main_loop order t (expand_modifiers c modifiers)"
  by (subst main_loop.simps) simp

lemma every_int_is_a_sum: "\<exists>ys. set ys \<subseteq> {2, -5} \<and> sum_list ys = (d::int)"
proof (cases "0 \<le> d")
  case True
  let ?ys = "replicate (nat (3 * d)) (2::int) @ replicate (nat d) (-5)"
  from True have "sum_list ?ys = d" by (simp add: sum_list_replicate)
  moreover have "set ?ys \<subseteq> {2, -5}" by auto
  ultimately show ?thesis by blast
next
  case False
  let ?ys = "replicate (nat (- 2 * d)) (2::int) @ replicate (nat (- d)) (-5)"
  from False have "sum_list ?ys = d" by (simp add: sum_list_replicate)
  moreover have "set ?ys \<subseteq> {2, -5}" by auto
  ultimately show ?thesis by blast
qed

lemma sum_list_of_mset:
  "mset c = mset s + mset ys \<Longrightarrow> sum_list c = sum_list s + sum_list (ys::int list)"
proof -
  assume "mset c = mset s + mset ys"
  hence "sum_mset (mset c) = sum_mset (mset s) + sum_mset (mset ys)" by simp
  thus ?thesis by (simp only: sum_mset_sum_list)
qed

lemma expand_reaches:
  assumes "set ys \<subseteq> set M" and "s \<in> a"
  shows "\<exists>c\<in>((\<lambda>a. expand_modifiers a M) ^^ length ys) a. mset c = mset s + mset ys"
proof -
  define E where "E = (\<lambda>a. expand_modifiers a M)"
  have "set ys \<subseteq> set M \<Longrightarrow> s \<in> a \<Longrightarrow> \<exists>c\<in>(E ^^ length ys) a. mset c = mset s + mset ys"
    for a s
  proof (induction ys arbitrary: a s)
    case Nil
    then show ?case by auto
  next
    case (Cons y ys)
    let ?s = "sort (s @ [y])"
    from Cons.prems have "?s \<in> E a"
      unfolding E_def expand_modifiers_def by auto
    moreover from Cons.prems have "set ys \<subseteq> set M" by simp
    ultimately obtain c where c: "c \<in> (E ^^ length ys) (E a)"
      and m: "mset c = mset ?s + mset ys"
      using Cons.IH by blast
    from c have "c \<in> (E ^^ length (y # ys)) a"
      by (simp add: funpow_swap1)
    moreover from m have "mset c = mset s + mset (y # ys)" by simp
    ultimately show ?case by blast
  qed
  with assms show ?thesis unfolding E_def by blast
qed

lemma main_loop_finds:
  assumes io: "iteration_order order" and fin: "finite a"
    and ex: "\<exists>c\<in>((\<lambda>a. expand_modifiers a modifiers) ^^ n) a. sum_list c = t"
  shows "\<exists>i. main_loop order t a = Some i \<and> sum_list i = t"
proof -
  define E where "E = (\<lambda>a. expand_modifiers a modifiers)"
  have "finite a \<Longrightarrow> \<exists>c\<in>(E ^^ n) a. sum_list c = t \<Longrightarrow>
      \<exists>i. main_loop order t a = Some i \<and> sum_list i = t" for a
  proof (induction n arbitrary: a)
    case 0
    then obtain c where "c \<in> a" and "sum_list c = t" by auto
    with find_order_None [OF io \<open>finite a\<close>, of "\<lambda>i. sum_list i = t"]
    obtain i where f: "find (\<lambda>i. sum_list i = t) (order a) = Some i" by blast
    from find_order_Some [OF io \<open>finite a\<close> f] main_loop_found [where order = order and c = a, OF f]
    show ?case by blast
  next
    case (Suc n)
    show ?case
    proof (cases "find (\<lambda>i. sum_list i = t) (order a)")
      case None
      from Suc.prems(2) have "\<exists>c\<in>(E ^^ n) (E a). sum_list c = t"
        by (simp add: funpow_swap1)
      moreover from Suc.prems(1) have "finite (E a)"
        unfolding E_def by (rule finite_expand_modifiers)
      ultimately have "\<exists>i. main_loop order t (E a) = Some i \<and> sum_list i = t"
        by (rule Suc.IH [rotated])
      with main_loop_next [where order = order and c = a, OF None] show ?thesis unfolding E_def by simp
    next
      case (Some i)
      from find_order_Some [OF io Suc.prems(1) Some] main_loop_found [where order = order and c = a, OF Some]
      show ?thesis by blast
    qed
  qed
  with fin ex show ?thesis unfolding E_def by blast
qed

lemma main_loop_returns:
  assumes io: "iteration_order order" and fin: "finite seed" and ne: "seed \<noteq> {}"
  shows "\<exists>i. main_loop order t seed = Some i \<and> sum_list i = t"
proof -
  from ne obtain s where s: "s \<in> seed" by blast
  obtain ys where ys: "set ys \<subseteq> {2, -5}" and sum: "sum_list ys = t - sum_list s"
    using every_int_is_a_sum by blast
  from ys have "set ys \<subseteq> set modifiers" by (auto simp: modifiers_def)
  from expand_reaches [OF this s]
  obtain c where c: "c \<in> ((\<lambda>a. expand_modifiers a modifiers) ^^ length ys) seed"
    and m: "mset c = mset s + mset ys" by blast
  from sum_list_of_mset [OF m] sum have "sum_list c = t" by simp
  with c have "\<exists>c\<in>((\<lambda>a. expand_modifiers a modifiers) ^^ length ys) seed. sum_list c = t"
    by blast
  with io fin show ?thesis by (rule main_loop_finds)
qed

lemma main_loop_scans:
  assumes r: "main_loop order t c = Some i"
    and io: "iteration_order order" and fin: "finite c" and sc: "scans t seed c"
  shows "\<exists>c'. scans t seed c' \<and> i \<in> c' \<and> sum_list i = t"
proof -
  define P where "P = (\<lambda>order t c (i::int list). iteration_order order \<longrightarrow> finite c \<longrightarrow>
      scans t seed c \<longrightarrow> (\<exists>c'. scans t seed c' \<and> i \<in> c' \<and> sum_list i = t))"
  have "P order t c i"
  proof (rule main_loop.raw_induct [where P = P, OF _ r])
    fix f ord tg cs y
    assume IH: "\<And>o' t' c' y'. f o' t' c' = Some y' \<Longrightarrow> P o' t' c' y'"
      and step: "(case find (\<lambda>i. sum_list i = tg) (ord cs) of
                    None \<Rightarrow> f ord tg (expand_modifiers cs modifiers)
                  | Some i \<Rightarrow> Some i) = Some y"
    show "P ord tg cs y"
      unfolding P_def
    proof (intro impI)
      assume io': "iteration_order ord" and fin': "finite cs" and sc': "scans tg seed cs"
      show "\<exists>c'. scans tg seed c' \<and> y \<in> c' \<and> sum_list y = tg"
      proof (cases "find (\<lambda>i. sum_list i = tg) (ord cs)")
        case None
        with step have "f ord tg (expand_modifiers cs modifiers) = Some y" by simp
        hence "P ord tg (expand_modifiers cs modifiers) y" by (rule IH)
        moreover from fin' have "finite (expand_modifiers cs modifiers)"
          by (rule finite_expand_modifiers)
        moreover from None find_order_None [OF io' fin', of "\<lambda>i. sum_list i = tg"]
        have "\<forall>i\<in>cs. sum_list i \<noteq> tg" by simp
        with sc' have "scans tg seed (expand_modifiers cs modifiers)" by (rule scans_expand)
        ultimately show ?thesis using io' unfolding P_def by blast
      next
        case (Some j)
        with step have "j = y" by simp
        with find_order_Some [OF io' fin' Some] sc' show ?thesis by blast
      qed
    qed
  qed
  with io fin sc show ?thesis unfolding P_def by blast
qed

lemma main_loop_empty_order: "main_loop (\<lambda>_. []) t c = None"
proof (cases "main_loop (\<lambda>_. []) t c")
  case None
  then show ?thesis .
next
  case (Some i)
  define P where "P = (\<lambda>(order :: int list set \<Rightarrow> int list list) (t::int)
      (c::int list set) (i::int list). order = (\<lambda>_. []) \<longrightarrow> False)"
  have "P (\<lambda>_. []) t c i"
  proof (rule main_loop.raw_induct [where P = P, OF _ Some])
    fix f ord tg cs y
    assume IH: "\<And>o' t' c' y'. f o' t' c' = Some y' \<Longrightarrow> P o' t' c' y'"
      and step: "(case find (\<lambda>i. sum_list i = tg) (ord cs) of
                    None \<Rightarrow> f ord tg (expand_modifiers cs modifiers)
                  | Some i \<Rightarrow> Some i) = Some y"
    show "P ord tg cs y"
      unfolding P_def
    proof
      assume e: "ord = (\<lambda>_. [])"
      with step have "f ord tg (expand_modifiers cs modifiers) = Some y" by simp
      hence "P ord tg (expand_modifiers cs modifiers) y" by (rule IH)
      with e show False unfolding P_def by simp
    qed
  qed
  thus ?thesis unfolding P_def by simp
qed

section \<open>The driver\<close>

lemma check_must_include_eq:
  "check_must_include R = (if set R \<subseteq> set modifiers then Inr () else Inl ValueError)"
  by (induction R) simp_all

lemma finite_first_moves: "finite (generate_multiplier_first_moves r p M)"
  by (simp add: generate_multiplier_first_moves_def)

lemma first_moves_not_empty: "M \<noteq> [] \<Longrightarrow> generate_multiplier_first_moves r p M \<noteq> {}"
  by (simp add: generate_multiplier_first_moves_def)

lemma multiplier_calibration_modifiers:
  "\<exists>seed. multiplier_calibration t modifiers = Inr seed \<and> finite seed \<and> seed \<noteq> {}"
proof -
  have "modifiers \<noteq> []" by (simp add: modifiers_def)
  thus ?thesis
    by (simp add: multiplier_calibration_def detect_multiplier_modifiers finite_first_moves
        first_moves_not_empty)
qed

lemma main_valid:
  assumes "set R \<subseteq> set modifiers"
    and "multiplier_calibration (T - sum_list R) modifiers = Inr seed"
  shows "main order T R =
     (case main_loop order (T - sum_list R) seed of
        None \<Rightarrow> None
      | Some i \<Rightarrow> Some (Inr (R @ i)))"
  using assms by (simp add: main_def check_must_include_eq)

lemma main_invalid: "\<not> set R \<subseteq> set modifiers \<Longrightarrow> main order T R = Some (Inl ValueError)"
  by (simp add: main_def check_must_include_eq)

lemma main_returns:
  assumes io: "iteration_order order" and R: "set R \<subseteq> set modifiers"
  shows "\<exists>i. main order T R = Some (Inr (R @ i)) \<and> sum_list i = T - sum_list R"
proof -
  obtain seed where c: "multiplier_calibration (T - sum_list R) modifiers = Inr seed"
    and fin: "finite seed" and ne: "seed \<noteq> {}"
    using multiplier_calibration_modifiers by blast
  from main_loop_returns [OF io fin ne]
  obtain i where "main_loop order (T - sum_list R) seed = Some i"
    and "sum_list i = T - sum_list R" by blast
  with main_valid [OF R c] show ?thesis by simp
qed

lemma scans_stays:
  "scans t seed c \<Longrightarrow> \<exists>i\<in>seed. sum_list i = t \<Longrightarrow> c = seed"
  by (induction rule: scans.induct) auto

text \<open>
  C1. For a required list \<open>R\<close> of modifiers of the fixed list, whenever \<open>main T R\<close>
  returns an answer, the answer is \<open>R\<close> followed by the matched combination \<open>i\<close>: a
  member of a candidate set that the loop scanned, of sum \<open>T - sum R\<close>. The sum of the
  answer is the original target \<open>T\<close>.
\<close>

theorem main_answer:
  assumes "iteration_order order" and "set R \<subseteq> set modifiers"
    and "main order T R = Some (Inr ans)"
  shows "\<exists>seed c i. multiplier_calibration (T - sum_list R) modifiers = Inr seed \<and>
           scans (T - sum_list R) seed c \<and> i \<in> c \<and> sum_list i = T - sum_list R \<and>
           ans = R @ i \<and> sum_list ans = T"
proof -
  obtain seed where c: "multiplier_calibration (T - sum_list R) modifiers = Inr seed"
    and fin: "finite seed"
    using multiplier_calibration_modifiers by blast
  from assms(3) main_valid [OF assms(2) c]
  obtain i where l: "main_loop order (T - sum_list R) seed = Some i" and a: "ans = R @ i"
    by (auto split: option.splits)
  from main_loop_scans [OF l assms(1) fin scans_seed]
  obtain c' where "scans (T - sum_list R) seed c'" and "i \<in> c'"
    and "sum_list i = T - sum_list R" by blast
  with c a show ?thesis by auto
qed

theorem main_answer_witness: "main lex_order 4 [2] = Some (Inr [2, 2])"
proof -
  have io: "iteration_order lex_order" by (rule iteration_order_lex)
  have R: "set [2] \<subseteq> set modifiers" by (simp add: modifiers_def)
  from main_returns [OF io R, of 4]
  obtain j where m: "main lex_order 4 [2] = Some (Inr ([2] @ j))" by blast
  from main_answer [OF io R m]
  obtain seed c i where s: "multiplier_calibration (4 - sum_list [2]) modifiers = Inr seed"
    and sc: "scans (4 - sum_list [2]) seed c" and i: "i \<in> c"
    and si: "sum_list i = 4 - sum_list [2]" and e: "[2] @ j = [2] @ i" by blast
  from s have seed: "seed = (\<lambda>i. [i]) ` set modifiers"
    by (simp add: multiplier_calibration_def detect_multiplier_modifiers
        generate_multiplier_first_moves_def)
  hence "\<exists>i\<in>seed. sum_list i = 4 - sum_list [2]" by (simp add: modifiers_def)
  with sc have "c = seed" by (rule scans_stays)
  with i si seed have "i = [2]" by (auto simp: modifiers_def)
  with e m show ?thesis by simp
qed

text \<open>
  C3. For every target \<open>T\<close> that is the sum of some modifiers of the fixed list,
  \<open>main T\<close> with no required modifier returns, under every admissible iteration order,
  a sequence of sum \<open>T\<close>; so does the call with target 0. (Every integer is such a sum,
  of copies of 2 and -5.)
\<close>

theorem main_terminates:
  assumes "iteration_order order"
    and "\<exists>xs. set xs \<subseteq> set modifiers \<and> sum_list xs = T"
  shows "(\<exists>ans. main order T [] = Some (Inr ans) \<and> sum_list ans = T) \<and>
         (\<exists>ans. main order 0 [] = Some (Inr ans) \<and> sum_list ans = 0)"
proof -
  have "\<exists>ans. main order t [] = Some (Inr ans) \<and> sum_list ans = t" for t
    using main_returns [OF assms(1), of "[]" t] by auto
  thus ?thesis by blast
qed

theorem main_terminates_witness:
  "sum_list [16, -5, -5, -6 :: int] = 0 \<and>
   (\<exists>ans. main lex_order 0 [] = Some (Inr ans) \<and> sum_list ans = 0)"
proof -
  have "set [16, -5, -5, -6] \<subseteq> set modifiers \<and> sum_list [16, -5, -5, -6 :: int] = 0"
    by (simp add: modifiers_def)
  hence "\<exists>xs. set xs \<subseteq> set modifiers \<and> sum_list xs = 0" by (rule exI)
  from main_terminates [OF iteration_order_lex this] show ?thesis by simp
qed

text \<open>
  C2. \<open>main T R\<close> raises the \<open>ValueError\<close> of line 102 exactly when some element of \<open>R\<close>
  is not in the fixed list. The check comes first: with such an \<open>R\<close> the error is the
  outcome for every target and every iteration order, also one under which the search
  loop would never return.
\<close>

theorem main_validation_error:
  "(main order T R = Some (Inl ValueError) \<longleftrightarrow> (\<exists>x\<in>set R. x \<notin> set modifiers)) \<and>
   ((\<exists>x\<in>set R. x \<notin> set modifiers) \<longrightarrow>
      (\<forall>order' T'. main order' T' R = Some (Inl ValueError)))"
proof (cases "set R \<subseteq> set modifiers")
  case True
  obtain seed where "multiplier_calibration (T - sum_list R) modifiers = Inr seed"
    using multiplier_calibration_modifiers by blast
  from main_valid [OF True this, of order]
  have "main order T R \<noteq> Some (Inl ValueError)" by (simp split: option.splits)
  with True show ?thesis by blast
next
  case False
  hence "main order' T' R = Some (Inl ValueError)" for order' T'
    by (rule main_invalid)
  with False show ?thesis by blast
qed

theorem main_validation_error_witness:
  "main lex_order 10 [3] = Some (Inl ValueError) \<and>
   main (\<lambda>_. []) 10 [3] = Some (Inl ValueError) \<and> main (\<lambda>_. []) 10 [] = None"
proof -
  have "\<exists>x\<in>set [3]. x \<notin> set modifiers" by (simp add: modifiers_def)
  with main_validation_error [of lex_order 10 "[3]"]
  have a: "main lex_order 10 [3] = Some (Inl ValueError)"
    and b: "main (\<lambda>_. []) 10 [3] = Some (Inl ValueError)" by blast+
  obtain seed where "multiplier_calibration (10 - sum_list []) modifiers = Inr seed"
    using multiplier_calibration_modifiers by blast
  hence "main (\<lambda>_. []) 10 [] = None"
    by (simp add: main_valid main_loop_empty_order)
  with a b show ?thesis by blast
qed

text \<open>Every candidate set that the loop scans holds sorted tuples only.\<close>

lemma scans_sorted:
  assumes "multiplier_calibration t modifiers = Inr seed" and "scans t seed c"
  shows "\<forall>x\<in>c. sorted x"
  using assms(2)
proof (induction rule: scans.induct)
  case scans_seed
  from assms(1) show ?case
    by (auto simp: multiplier_calibration_def detect_multiplier_modifiers
        generate_multiplier_first_moves_def sorted_replicate split: if_splits)
next
  case (scans_expand cs)
  show ?case by (auto simp: expand_modifiers_iff)
qed

text \<open>
  Hence no two tuples of a scanned candidate set are permutations of one another.
\<close>

lemma scans_no_permutations:
  assumes "multiplier_calibration t modifiers = Inr seed" and "scans t seed c"
  shows "\<forall>x\<in>c. \<forall>y\<in>c. mset x = mset y \<longrightarrow> x = y"
proof (intro ballI impI)
  fix x y
  assume "x \<in> c" and "y \<in> c"
  with scans_sorted [OF assms] have "sorted x" and "sorted y" by blast+
  moreover assume "mset x = mset y"
  ultimately show "x = y" by (rule sorted_same_mset)
qed

lemma count_list_sort_snoc: "count_list xs p \<le> count_list (sort (xs @ [y])) (p::int)"
proof -
  have "count (mset (sort (xs @ [y]))) p = count (mset xs + {#y#}) p" by simp
  hence "count_list (sort (xs @ [y])) p = count_list xs p + count {#y#} p"
    by (simp only: count_mset count_union)
  thus ?thesis by simp
qed

lemma count_list_replicate_same: "count_list (replicate n p) p = n"
  by (induction n) simp_all

text \<open>
  C9. When the estimate \<open>r\<close> that \<open>detect_multiplier\<close> returns to \<open>main\<close> exceeds 1, every
  combination of every candidate set that the loop scans holds at least \<open>r\<close> copies of
  the base modifier \<open>p\<close>.
\<close>

theorem scans_keep_seeded_copies:
  assumes "detect_multiplier (T - sum_list R) modifiers = Inr (r, p)" and "1 < r"
    and "multiplier_calibration (T - sum_list R) modifiers = Inr seed"
    and "scans (T - sum_list R) seed c" and "x \<in> c"
  shows "nat r \<le> count_list x p"
proof -
  from assms(1-3) have seed: "seed = {replicate (nat r) p}"
    by (simp add: multiplier_calibration_def generate_multiplier_first_moves_def)
  from assms(4) have "\<forall>x\<in>c. nat r \<le> count_list x p"
  proof (induction rule: scans.induct)
    case scans_seed
    show ?case by (simp add: seed count_list_replicate_same)
  next
    case (scans_expand cs)
    show ?case
    proof
      fix x
      assume "x \<in> expand_modifiers cs modifiers"
      then obtain x' y where "x' \<in> cs" and x: "x = sort (x' @ [y])"
        by (auto simp: expand_modifiers_iff)
      with scans_expand.IH have "nat r \<le> count_list x' p" by blast
      also have "\<dots> \<le> count_list x p" unfolding x by (rule count_list_sort_snoc)
      finally show "nat r \<le> count_list x p" .
    qed
  qed
  with assms(5) show ?thesis by blast
qed

theorem scans_keep_seeded_copies_witness:
  "detect_multiplier (70 - sum_list []) modifiers = Inr (2, 16) \<and>
   scans (70 - sum_list []) {[16, 16]} (expand_modifiers {[16, 16]} modifiers) \<and>
   [2, 16, 16] \<in> expand_modifiers {[16, 16]} modifiers \<and>
   nat 2 \<le> count_list [2, 16, 16 :: int] 16"
proof -
  have d: "detect_multiplier (70 - sum_list []) modifiers = Inr (2, 16)"
    by (simp add: detect_multiplier_modifiers)
  have r: "1 < (2::int)" by simp
  have "replicate (nat 2) (16::int) = [16, 16]" by (simp add: numeral_2_eq_2)
  hence m: "multiplier_calibration (70 - sum_list []) modifiers = Inr {[16, 16]}"
    using d by (simp add: multiplier_calibration_def generate_multiplier_first_moves_def)
  have "\<forall>i\<in>{[16, 16 :: int]}. sum_list i \<noteq> 70 - sum_list []" by simp
  with scans_seed
  have s: "scans (70 - sum_list []) {[16, 16]} (expand_modifiers {[16, 16]} modifiers)"
    by (rule scans_expand)
  have "sort ([16, 16] @ [2 :: int]) = [2, 16, 16]" by simp
  moreover have "sort ([16, 16] @ [2]) \<in> expand_modifiers {[16, 16]} modifiers"
    unfolding expand_modifiers_def by (simp add: modifiers_def)
  ultimately have x: "[2, 16, 16] \<in> expand_modifiers {[16, 16]} modifiers" by simp
  from scans_keep_seeded_copies [OF d r m s x] d s x show ?thesis by blast
qed

end
